theory Spec2Isabelle
  imports Complex_Main "HOL-Library.AList" "HOL-Library.Log_Nat"
begin

section \<open>The bigram language model of \<^verbatim>\<open>outloud_mini_lm.py\<close>\<close>

text \<open>
  The development embeds the class \<^verbatim>\<open>BigramModel\<close>: its tokenizer, the training pass, the
  construction of the cumulative distributions, the sampler and the two persistence
  methods. Python objects become values:
  \<^item> a \<^verbatim>\<open>str\<close> is a \<^typ>\<open>string\<close>, one \<^typ>\<open>char\<close> per code point (code points below 256);
  \<^item> a \<^verbatim>\<open>dict\<close> is an association list with distinct keys in insertion order,
    \<^verbatim>\<open>d[k] = v\<close> is \<^const>\<open>AList.update\<close> (in place for a known key, at the end for a new one);
  \<^item> a \<^verbatim>\<open>set\<close> is the list of its elements in the order they were added, and the order in
    which Python iterates over it is a parameter \<open>iter_set\<close> of the functions that do so;
  \<^item> a \<^verbatim>\<open>float\<close> is a \<open>pyfloat\<close>, an IEEE binary64 value, with the rounding of each operation
    written out;
  \<^item> an exception is the left summand of a result;
  \<^item> the generator behind \<^verbatim>\<open>random.random()\<close> is the stream of the values it will return.
\<close>

subsection \<open>Characters and strings\<close>

text \<open>The class \<^verbatim>\<open>\w\<close> of the module \<^verbatim>\<open>re\<close> on a \<^verbatim>\<open>str\<close> pattern: alphanumeric code points and the
  underscore.\<close>

definition is_word :: "char \<Rightarrow> bool" where
  "is_word c =
     (let n = (of_char c :: nat) in
        (48 \<le> n \<and> n \<le> 57) \<or> (65 \<le> n \<and> n \<le> 90) \<or> n = 95 \<or> (97 \<le> n \<and> n \<le> 122)
        \<or> n \<in> {170, 178, 179, 181, 185, 186, 188, 189, 190}
        \<or> (192 \<le> n \<and> n \<le> 214) \<or> (216 \<le> n \<and> n \<le> 246) \<or> 248 \<le> n)"

text \<open>The characters that \<^verbatim>\<open>str.strip()\<close> removes.\<close>

definition is_space :: "char \<Rightarrow> bool" where
  "is_space c =
     (let n = (of_char c :: nat) in
        (9 \<le> n \<and> n \<le> 13) \<or> (28 \<le> n \<and> n \<le> 32) \<or> n = 133 \<or> n = 160)"

definition strip :: "string \<Rightarrow> string" where
  "strip s = rev (dropWhile is_space (rev (dropWhile is_space s)))"

definition lower_char :: "char \<Rightarrow> char" where
  "lower_char c =
     (let n = (of_char c :: nat) in
        if (65 \<le> n \<and> n \<le> 90) \<or> (192 \<le> n \<and> n \<le> 222 \<and> n \<noteq> 215)
        then char_of (n + 32) else c)"

definition lower :: "string \<Rightarrow> string" where
  "lower s = map lower_char s"

text \<open>\<^verbatim>\<open>sep.join(xs)\<close>.\<close>

fun join :: "string \<Rightarrow> string list \<Rightarrow> string" where
  "join sep [] = []"
| "join sep [x] = x"
| "join sep (x # y # ys) = x @ sep @ join sep (y # ys)"

subsection \<open>The tokenizer\<close>

definition dquote :: char where
  "dquote = CHR 0x22"

text \<open>
  After a run of word characters, the rest of the first alternative of the pattern
  \<^verbatim>\<open>\w+="[^"]*"|\w+\<close>: an equals sign, a double quote, characters other than the double quote,
  and the closing double quote. The result is the text matched and the text left over; there is
  no match when the closing quote is missing.
\<close>

fun quoted_span :: "string \<Rightarrow> (string \<times> string) option" where
  "quoted_span (e # q # r) =
     (if e = CHR ''='' \<and> q = dquote then
        (case dropWhile (\<lambda>c. c \<noteq> dquote) r of
           [] \<Rightarrow> None
         | _ # r' \<Rightarrow> Some (e # q # takeWhile (\<lambda>c. c \<noteq> dquote) r @ [dquote], r'))
      else None)"
| "quoted_span _ = None"

text \<open>
  \<^verbatim>\<open>re.findall(r'\w+="[^"]*"|\w+', text)\<close>: the scan goes left to right; at a word character the
  greedy run of word characters is taken, extended by the quoted span when there is one; any
  other character is skipped.
\<close>

function tokenize :: "string \<Rightarrow> string list" where
  "tokenize [] = []"
| "tokenize (c # cs) =
     (if is_word c then
        (let w = takeWhile is_word (c # cs); rest = dropWhile is_word (c # cs) in
         case quoted_span rest of
           Some (q, rest') \<Rightarrow> (w @ q) # tokenize rest'
         | None \<Rightarrow> w # tokenize rest)
      else tokenize cs)"
  by pat_completeness auto
termination
proof (relation "measure length")
  have shorter: "length r' < length r" if "quoted_span r = Some (q, r')" for r q r'
    using that
  proof (induction r rule: quoted_span.induct)
    case (1 e d r)
    then obtain x where x: "dropWhile (\<lambda>c. c \<noteq> dquote) r = x # r'"
      by (auto split: if_splits list.splits)
    have "length (dropWhile (\<lambda>c. c \<noteq> dquote) r) \<le> length r"
      by (rule length_dropWhile_le)
    with x show ?case by simp
  qed simp_all
  fix c cs w rest x2 q rest'
  assume a: "is_word c" "rest = dropWhile is_word (c # cs)"
    "quoted_span rest = Some x2" "(q, rest') = x2"
  then have "length rest' < length rest"
    by (auto dest: shorter)
  moreover have "length (dropWhile is_word (c # cs)) \<le> length (c # cs)"
    by (rule length_dropWhile_le)
  ultimately show "(rest', c # cs) \<in> measure length"
    using a by simp
next
  fix c cs w rest
  assume "is_word c" "rest = dropWhile is_word (c # cs)"
  then show "(rest, c # cs) \<in> measure length"
    using length_dropWhile_le [of is_word cs] by simp
qed simp_all

subsection \<open>Exceptions\<close>

datatype error =
    IndexError
  | KeyError
  | ValueError
  | TypeError
  | ZeroDivisionError
  | OverflowError
  | SystemExit int

subsection \<open>Floating-point numbers\<close>

text \<open>
  A Python \<^verbatim>\<open>float\<close> is an IEEE 754 binary64 number: a finite value (kept as the real number it
  denotes), an infinity or a NaN. The sign of zero, which no operation below observes, is not
  kept.
\<close>

datatype pyfloat = Finite real | PosInf | NegInf | NaN

text \<open>The integer nearest to \<open>x\<close>, the even one of the two at a tie.\<close>

definition round_half_even :: "real \<Rightarrow> int" where
  "round_half_even x =
     (let f = \<lfloor>x\<rfloor>; d = x - of_int f in
        if d < 1 / 2 then f else if 1 / 2 < d then f + 1 else if even f then f else f + 1)"

text \<open>For \<open>0 < x\<close>, the exponent \<open>e\<close> with \<open>2 powi e \<le> x < 2 powi (e + 1)\<close>.\<close>

definition ilog2 :: "real \<Rightarrow> int" where
  "ilog2 x =
     (if 1 \<le> x then int (floorlog 2 (nat \<lfloor>x\<rfloor>)) - 1
      else - int (floorlog 2 (nat (\<lceil>1 / x\<rceil> - 1))))"

text \<open>
  Rounding to the nearest number with a significand of 53 bits and an exponent of at least
  \<open>-1074\<close> (the subnormal numbers included), ties to even; the exponent is not bounded above.
\<close>

definition rnd53 :: "real \<Rightarrow> real" where
  "rnd53 x =
     (if x = 0 then 0
      else let e = max (ilog2 \<bar>x\<bar> - 52) (- 1074) in
        of_int (round_half_even (x / 2 powi e)) * 2 powi e)"

text \<open>The binary64 result of an operation whose exact result is \<open>x\<close>.\<close>

definition to_float :: "real \<Rightarrow> pyfloat" where
  "to_float x =
     (let r = rnd53 x in
        if 2 ^ 1024 \<le> r then PosInf else if r \<le> - (2 ^ 1024) then NegInf else Finite r)"

text \<open>\<^verbatim>\<open>x + y\<close> on floats.\<close>

fun fadd :: "pyfloat \<Rightarrow> pyfloat \<Rightarrow> pyfloat" where
  "fadd (Finite x) (Finite y) = to_float (x + y)"
| "fadd NaN _ = NaN"
| "fadd _ NaN = NaN"
| "fadd PosInf NegInf = NaN"
| "fadd NegInf PosInf = NaN"
| "fadd PosInf _ = PosInf"
| "fadd _ PosInf = PosInf"
| "fadd NegInf _ = NegInf"
| "fadd _ NegInf = NegInf"

text \<open>\<^verbatim>\<open>x < y\<close> on floats.\<close>

fun flt :: "pyfloat \<Rightarrow> pyfloat \<Rightarrow> bool" where
  "flt (Finite x) (Finite y) = (x < y)"
| "flt (Finite x) PosInf = True"
| "flt NegInf (Finite y) = True"
| "flt NegInf PosInf = True"
| "flt _ _ = False"

text \<open>\<^verbatim>\<open>a / b\<close> on two \<^verbatim>\<open>int\<close>s: the correctly rounded quotient.\<close>

definition truediv :: "int \<Rightarrow> int \<Rightarrow> error + pyfloat" where
  "truediv a b =
     (if b = 0 then Inl ZeroDivisionError
      else let r = rnd53 (of_int a / of_int b) in
        if 2 ^ 1024 \<le> \<bar>r\<bar> then Inl OverflowError else Inr (Finite r))"

subsection \<open>The model\<close>

text \<open>
  The keys of \<^verbatim>\<open>bigram_counts\<close> are pairs of tokens after training and strings after
  \<^verbatim>\<open>json.load\<close>.
\<close>

datatype pykey = TupleKey string string | StrKey string

record BigramModel =
  bigram_counts :: "(pykey \<times> int) list"
  word_counts :: "(string \<times> int) list"
  cumulative_probs :: "(string \<times> (string \<times> pyfloat) list) list"

text \<open>\<^verbatim>\<open>__init__\<close>.\<close>

definition init :: BigramModel where
  "init = \<lparr>bigram_counts = [], word_counts = [], cumulative_probs = []\<rparr>"

text \<open>\<^verbatim>\<open>d[k]\<close>.\<close>

definition getitem :: "('k \<times> 'v) list \<Rightarrow> 'k \<Rightarrow> error + 'v" where
  "getitem d k = (case map_of d k of None \<Rightarrow> Inl KeyError | Some v \<Rightarrow> Inr v)"

text \<open>\<^verbatim>\<open>d[k] = d.get(k, 0) + 1\<close>.\<close>

definition increment :: "'k \<Rightarrow> ('k \<times> int) list \<Rightarrow> ('k \<times> int) list" where
  "increment k d = AList.update k ((case map_of d k of None \<Rightarrow> 0 | Some v \<Rightarrow> v) + 1) d"

subsection \<open>Training\<close>

text \<open>The body of the loop over the lines of the corpus.\<close>

definition train_line :: "string \<Rightarrow> BigramModel \<Rightarrow> BigramModel" where
  "train_line line m =
     (let tokens = tokenize (lower (strip line)) in
        if tokens = [] then m
        else m\<lparr>word_counts := fold increment tokens (word_counts m),
               bigram_counts :=
                 fold increment (map (\<lambda>(a, b). TupleKey a b) (zip tokens (tl tokens)))
                   (bigram_counts m)\<rparr>)"

subsection \<open>The distribution builder\<close>

text \<open>\<^verbatim>\<open>s.add(x)\<close>, on the list of the elements of \<open>s\<close> in the order they were added.\<close>

definition set_add :: "'a \<Rightarrow> 'a list \<Rightarrow> 'a list" where
  "set_add x s = (if x \<in> set s then s else s @ [x])"

text \<open>\<^verbatim>\<open>first_word, second_word = bigram\<close>: a pair unpacks to its components, a string to its
  characters, of which there must be two.\<close>

fun unpack :: "pykey \<Rightarrow> error + string \<times> string" where
  "unpack (TupleKey a b) = Inr (a, b)"
| "unpack (StrKey [a, b]) = Inr ([a], [b])"
| "unpack (StrKey _) = Inl ValueError"

text \<open>The loop of \<^verbatim>\<open>get_following_words\<close>, from the dictionary built so far.\<close>

fun following_loop ::
  "(pykey \<times> int) list \<Rightarrow> (string \<times> string list) list \<Rightarrow> error + (string \<times> string list) list"
where
  "following_loop [] following_words = Inr following_words"
| "following_loop ((bigram, count) # rest) following_words =
     (case unpack bigram of
        Inl e \<Rightarrow> Inl e
      | Inr (first_word, second_word) \<Rightarrow>
          following_loop rest
            (AList.update first_word
               (set_add second_word
                  (case map_of following_words first_word of None \<Rightarrow> [] | Some s \<Rightarrow> s))
               following_words))"

definition get_following_words :: "BigramModel \<Rightarrow> error + (string \<times> string list) list" where
  "get_following_words m = following_loop (bigram_counts m) []"

text \<open>\<^verbatim>\<open>sum(self.bigram_counts[(word, w)] for w in following_words)\<close>.\<close>

fun sum_counts :: "(pykey \<times> int) list \<Rightarrow> string \<Rightarrow> string list \<Rightarrow> error + int" where
  "sum_counts bc word [] = Inr 0"
| "sum_counts bc word (w # ws) =
     (case getitem bc (TupleKey word w) of
        Inl e \<Rightarrow> Inl e
      | Inr c \<Rightarrow> (case sum_counts bc word ws of Inl e \<Rightarrow> Inl e | Inr s \<Rightarrow> Inr (c + s)))"

text \<open>The inner loop of \<^verbatim>\<open>calculate_cumulative_probabilities\<close>: the list appended to
  \<^verbatim>\<open>cumulative_probs[word]\<close>, from the running value \<open>cumulative_probability\<close>.\<close>

fun accumulate ::
  "(pykey \<times> int) list \<Rightarrow> string \<Rightarrow> int \<Rightarrow> pyfloat \<Rightarrow> string list \<Rightarrow>
   error + (string \<times> pyfloat) list"
where
  "accumulate bc word total_count cumulative_probability [] = Inr []"
| "accumulate bc word total_count cumulative_probability (w # ws) =
     (case getitem bc (TupleKey word w) of
        Inl e \<Rightarrow> Inl e
      | Inr c \<Rightarrow>
          (case truediv c total_count of
             Inl e \<Rightarrow> Inl e
           | Inr q \<Rightarrow>
               (let cumulative_probability' = fadd cumulative_probability q in
                  case accumulate bc word total_count cumulative_probability' ws of
                    Inl e \<Rightarrow> Inl e
                  | Inr rest \<Rightarrow> Inr ((w, cumulative_probability') # rest))))"

text \<open>The body of the outer loop, for one predecessor and its set of successors; \<open>iter_set\<close>
  gives the order in which Python iterates over the set.\<close>

definition distribution ::
  "(string list \<Rightarrow> string list) \<Rightarrow> (pykey \<times> int) list \<Rightarrow> string \<Rightarrow> string list \<Rightarrow>
   error + (string \<times> pyfloat) list"
where
  "distribution iter_set bc word following_words =
     (case sum_counts bc word (iter_set following_words) of
        Inl e \<Rightarrow> Inl e
      | Inr total_count \<Rightarrow>
          accumulate bc word total_count (Finite 0) (iter_set following_words))"

fun distributions_loop ::
  "(string list \<Rightarrow> string list) \<Rightarrow> (pykey \<times> int) list \<Rightarrow> (string \<times> string list) list \<Rightarrow>
   (string \<times> (string \<times> pyfloat) list) list \<Rightarrow> error + (string \<times> (string \<times> pyfloat) list) list"
where
  "distributions_loop iter_set bc [] cp = Inr cp"
| "distributions_loop iter_set bc ((word, following_words) # rest) cp =
     (case distribution iter_set bc word following_words of
        Inl e \<Rightarrow> Inl e
      | Inr d \<Rightarrow> distributions_loop iter_set bc rest (AList.update word d cp))"

definition calculate_cumulative_probabilities ::
  "(string list \<Rightarrow> string list) \<Rightarrow> BigramModel \<Rightarrow> error + BigramModel"
where
  "calculate_cumulative_probabilities iter_set m =
     (case get_following_words m of
        Inl e \<Rightarrow> Inl e
      | Inr fw \<Rightarrow>
          (case distributions_loop iter_set (bigram_counts m) fw (cumulative_probs m) of
             Inl e \<Rightarrow> Inl e
           | Inr cp \<Rightarrow> Inr (m\<lparr>cumulative_probs := cp\<rparr>)))"

text \<open>\<^verbatim>\<open>train\<close>, on the lines of the corpus file.\<close>

definition train ::
  "(string list \<Rightarrow> string list) \<Rightarrow> BigramModel \<Rightarrow> string list \<Rightarrow> error + BigramModel"
where
  "train iter_set m corpus = calculate_cumulative_probabilities iter_set (fold train_line corpus m)"

subsection \<open>The sampler\<close>

text \<open>
  The state of the module \<^verbatim>\<open>random\<close> is the stream of the values that \<^verbatim>\<open>random.random()\<close> will
  return, the next one at index \<open>0\<close>. What \<^verbatim>\<open>random.seed(n)\<close> sets the state to is a parameter
  \<open>seed_rng\<close> of the sampler.
\<close>

type_synonym rng = "nat \<Rightarrow> pyfloat"

definition random_random :: "rng \<Rightarrow> pyfloat \<times> rng" where
  "random_random g = (g 0, \<lambda>n. g (Suc n))"

text \<open>What a method can read and write: the object \<^verbatim>\<open>self\<close> and the state of the generator.\<close>

record state =
  self :: BigramModel
  random_state :: rng

text \<open>The dictionary that \<^verbatim>\<open>sample\<close> returns.\<close>

record sample_result =
  completion :: string
  tokens :: "string list"

text \<open>The inner \<^verbatim>\<open>for\<close> loop with its \<^verbatim>\<open>else\<close> branch: the first word whose cumulative probability
  exceeds \<open>rand\<close>, if there is one.\<close>

fun pick :: "pyfloat \<Rightarrow> (string \<times> pyfloat) list \<Rightarrow> string option" where
  "pick rand [] = None"
| "pick rand ((word, cumulative_probability) # rest) =
     (if flt rand cumulative_probability then Some word else pick rand rest)"

text \<open>
  The loop \<^verbatim>\<open>for _ in range(max_tokens)\<close>, with the number of rounds left. It returns the list
  \<open>completion\<close> as the loop leaves it, or the \<^verbatim>\<open>IndexError\<close> of \<^verbatim>\<open>completion[-1]\<close> on an empty list.
\<close>

fun sample_loop ::
  "(string \<times> (string \<times> pyfloat) list) list \<Rightarrow> nat \<Rightarrow> string list \<Rightarrow> rng \<Rightarrow>
   (error + string list) \<times> rng"
where
  "sample_loop cp 0 compl g = (Inr compl, g)"
| "sample_loop cp (Suc n) compl g =
     (if compl = [] then (Inl IndexError, g)
      else
        (let last_word = last compl in
           case map_of cp last_word of
             None \<Rightarrow> (Inr compl, g)
           | Some successors \<Rightarrow>
               (let (rand, g') = random_random g in
                  case pick rand successors of
                    Some word \<Rightarrow> sample_loop cp n (compl @ [word]) g'
                  | None \<Rightarrow> (Inr compl, g'))))"

definition sample ::
  "(int \<Rightarrow> rng) \<Rightarrow> string \<Rightarrow> int \<Rightarrow> int option \<Rightarrow> state \<Rightarrow> (error + sample_result) \<times> state"
where
  "sample seed_rng prefix max_tokens seed s =
     (let g = (case seed of None \<Rightarrow> random_state s | Some n \<Rightarrow> seed_rng n);
          toks = tokenize (lower (strip prefix));
          (r, g') = sample_loop (cumulative_probs (self s)) (nat max_tokens) toks g
      in (case r of
            Inl e \<Rightarrow> Inl e
          | Inr compl \<Rightarrow>
              Inr \<lparr>completion = join '' '' (drop (length toks) compl),
                   tokens = drop (length toks) compl\<rparr>,
          s\<lparr>random_state := g'\<rparr>))"

subsection \<open>Persistence\<close>

text \<open>
  \<^verbatim>\<open>json.dump\<close> writes a dictionary key that is a string as it is and raises \<^verbatim>\<open>TypeError\<close> for a
  key that is a tuple.
\<close>

fun json_key :: "pykey \<Rightarrow> error + string" where
  "json_key (StrKey k) = Inr k"
| "json_key (TupleKey a b) = Inl TypeError"

fun json_object :: "(pykey \<times> int) list \<Rightarrow> error + (string \<times> int) list" where
  "json_object [] = Inr []"
| "json_object ((k, v) # rest) =
     (case json_key k of
        Inl e \<Rightarrow> Inl e
      | Inr k' \<Rightarrow> (case json_object rest of Inl e \<Rightarrow> Inl e | Inr rest' \<Rightarrow> Inr ((k', v) # rest')))"

text \<open>The JSON document of a model: an object with the members \<^verbatim>\<open>bigram_counts\<close> and
  \<^verbatim>\<open>word_counts\<close>, each an object, given by its members in the order of the text.\<close>

record model_data =
  json_bigram_counts :: "(string \<times> int) list"
  json_word_counts :: "(string \<times> int) list"

text \<open>What \<^verbatim>\<open>open\<close> and \<^verbatim>\<open>json.load\<close> find at a path.\<close>

datatype model_file = NoFile | InvalidJson | Json model_data

text \<open>\<^verbatim>\<open>save_model\<close>: the document written, or the exception of \<^verbatim>\<open>json.dump\<close>.\<close>

definition save_model :: "BigramModel \<Rightarrow> error + model_data" where
  "save_model m =
     (case json_object (bigram_counts m) of
        Inl e \<Rightarrow> Inl e
      | Inr b \<Rightarrow> Inr \<lparr>json_bigram_counts = b, json_word_counts = word_counts m\<rparr>)"

text \<open>The dictionary that \<^verbatim>\<open>json.load\<close> builds from the members of an object: a later member
  with the same name replaces the value of the earlier one.\<close>

definition dict_of :: "('k \<times> 'v) list \<Rightarrow> ('k \<times> 'v) list" where
  "dict_of members = fold (\<lambda>(k, v). AList.update k v) members []"

text \<open>\<^verbatim>\<open>load_model\<close>: the two handlers end the process with status 1.\<close>

fun load_model ::
  "(string list \<Rightarrow> string list) \<Rightarrow> BigramModel \<Rightarrow> model_file \<Rightarrow> error + BigramModel"
where
  "load_model iter_set m NoFile = Inl (SystemExit 1)"
| "load_model iter_set m InvalidJson = Inl (SystemExit 1)"
| "load_model iter_set m (Json d) =
     calculate_cumulative_probabilities iter_set
       (m\<lparr>bigram_counts := map (\<lambda>(k, v). (StrKey k, v)) (dict_of (json_bigram_counts d)),
          word_counts := dict_of (json_word_counts d)\<rparr>)"

subsection \<open>Distributions that agree with the counts\<close>

text \<open>Every entry of every distribution belongs to a bigram that has a count.\<close>

definition sound ::
  "(pykey \<times> int) list \<Rightarrow> (string \<times> (string \<times> pyfloat) list) list \<Rightarrow> bool" where
  "sound bc cp \<longleftrightarrow>
     (\<forall>p d w c. map_of cp p = Some d \<longrightarrow> (w, c) \<in> set d \<longrightarrow> TupleKey p w \<in> fst ` set bc)"

subsection \<open>The order of first observation\<close>

text \<open>
  The specification orders the successors of a predecessor by first observation: the order in
  which each successor first appears as the second element of a key with that predecessor,
  while the keys of \<^verbatim>\<open>bigram_counts\<close> are scanned in insertion order. The three functions below
  follow these words, not the code.
\<close>

text \<open>The elements of a list in the order of their first occurrence.\<close>

fun first_occurrences :: "'a list \<Rightarrow> 'a list" where
  "first_occurrences [] = []"
| "first_occurrences (x # xs) = x # filter (\<lambda>y. y \<noteq> x) (first_occurrences xs)"

text \<open>The keys that are pairs, in insertion order.\<close>

fun key_pairs :: "(pykey \<times> int) list \<Rightarrow> (string \<times> string) list" where
  "key_pairs [] = []"
| "key_pairs ((TupleKey a b, c) # rest) = (a, b) # key_pairs rest"
| "key_pairs ((StrKey k, c) # rest) = key_pairs rest"

definition predecessors :: "(pykey \<times> int) list \<Rightarrow> string list" where
  "predecessors bc = first_occurrences (map fst (key_pairs bc))"

definition first_observed :: "(pykey \<times> int) list \<Rightarrow> string \<Rightarrow> string list" where
  "first_observed bc p = first_occurrences (map snd (filter (\<lambda>(a, b). a = p) (key_pairs bc)))"

text \<open>All keys are pairs, as in a model that was trained.\<close>

definition tuple_keys :: "(pykey \<times> int) list \<Rightarrow> bool" where
  "tuple_keys bc \<longleftrightarrow> (\<forall>(k, c) \<in> set bc. \<exists>a b. k = TupleKey a b)"

section \<open>Properties\<close>

subsection \<open>The tokenizer\<close>

text \<open>A quoted span is a prefix of the text it is found in.\<close>

lemma quoted_span_split: "quoted_span r = Some (q, r') \<Longrightarrow> r = q @ r'"
proof (induction r rule: quoted_span.induct)
  case (1 e d r)
  then obtain x where x: "dropWhile (\<lambda>c. c \<noteq> dquote) r = x # r'"
    and q: "q = e # d # takeWhile (\<lambda>c. c \<noteq> dquote) r @ [dquote]"
    by (auto split: if_splits list.splits)
  from x have "x = dquote"
    using hd_dropWhile [of "\<lambda>c. c \<noteq> dquote" r] by auto
  with x have "r = takeWhile (\<lambda>c. c \<noteq> dquote) r @ dquote # r'"
    using takeWhile_dropWhile_id [of "\<lambda>c. c \<noteq> dquote" r] by simp
  with q show ?case by simp
qed simp_all

text \<open>The tokens are disjoint pieces of the text.\<close>

lemma tokenize_length: "length (concat (tokenize s)) \<le> length s"
proof (induction s rule: tokenize.induct)
  case 1
  show ?case by simp
next
  case (2 c cs)
  show ?case
  proof (cases "is_word c")
    case False
    with 2 show ?thesis by simp
  next
    case True
    let ?w = "takeWhile is_word (c # cs)" and ?rest = "dropWhile is_word (c # cs)"
    have split: "length ?w + length ?rest = length (c # cs)"
      by (metis length_append takeWhile_dropWhile_id)
    show ?thesis
    proof (cases "quoted_span ?rest")
      case None
      with "2.IH"(1) [OF True refl refl None] True
      have "length (concat (tokenize (c # cs))) \<le> length ?w + length ?rest"
        by (simp del: takeWhile.simps dropWhile.simps)
      also note split
      finally show ?thesis .
    next
      case (Some p)
      obtain q rest' where p: "p = (q, rest')" by (cases p)
      from Some p have "?rest = q @ rest'" by (auto dest: quoted_span_split)
      then have r: "length q + length rest' = length ?rest"
        by (metis length_append)
      from "2.IH"(2) [OF True refl refl Some p [symmetric]] True Some p
      have "length (concat (tokenize (c # cs))) \<le> length ?w + length q + length rest'"
        by (simp del: takeWhile.simps dropWhile.simps)
      also have "\<dots> = length (c # cs)"
        using split r by linarith
      finally show ?thesis .
    qed
  qed
qed

text \<open>
  Claim C8. \<^verbatim>\<open>tokenize('open app="journal"')\<close> is \<^verbatim>\<open>['open', 'app="journal"']\<close>, a quoted span with a
  space in it stays one token, \<^verbatim>\<open>tokenize('')\<close> is the empty list, and \<open>tokenize\<close> returns a list
  of tokens for every text: the scan terminates on every input, raises nothing, and the tokens
  together are no longer than the text.
\<close>

theorem tokenize_examples:
  \<open>tokenize ''open app="journal"'' = [''open'', ''app="journal"'']
   \<and> tokenize ''open app="my journal"'' = [''open'', ''app="my journal"'']
   \<and> tokenize '''' = []
   \<and> length (concat (tokenize text)) \<le> length text\<close>
  by (simp add: is_word_def dquote_def tokenize_length)

subsection \<open>The sampler\<close>

lemma tokenize_prefix_example:
  "tokenize (lower (strip '' Open Journal '')) = [''open'', ''journal'']"
  by code_simp

text \<open>
  Claim C6. With \<open>max_tokens = 0\<close> the loop body never runs: for every state, prefix and seed,
  \<open>sample\<close> returns the empty completion string and the empty token list.
\<close>

theorem sample_zero_tokens:
  "fst (sample seed_rng prefix 0 seed s) = Inr \<lparr>completion = '''', tokens = []\<rparr>"
  by (simp add: sample_def)

text \<open>
  Claim C9. \<open>sample\<close> leaves the object \<open>self\<close> as it found it (word counts, bigram counts and
  cumulative distributions), whatever it returns or raises; only the state of the random
  generator changes.
\<close>

theorem sample_keeps_model:
  "self (snd (sample seed_rng prefix max_tokens seed s)) = self s"
  by (simp add: sample_def Let_def split: prod.splits)

text \<open>
  Claim C4. With a seed, the result of \<open>sample\<close> does not depend on the state of the random
  generator before the call: two calls on the same model with the same prefix, \<open>max_tokens\<close> and
  seed return the same completion and the same tokens (or raise the same exception).
\<close>

theorem sample_seeded_deterministic:
  "fst (sample seed_rng prefix max_tokens (Some n) (s\<lparr>random_state := g1\<rparr>))
   = fst (sample seed_rng prefix max_tokens (Some n) (s\<lparr>random_state := g2\<rparr>))"
  by (simp add: sample_def Let_def split: prod.splits)

text \<open>A prefix without tokens and at least one round: the first round fails.\<close>

lemma sample_no_tokens_raises:
  assumes "tokenize (lower (strip prefix)) = []" and "0 < max_tokens"
  shows "fst (sample seed_rng prefix max_tokens seed s) = Inl IndexError"
proof -
  from assms(2) obtain k where "nat max_tokens = Suc k"
    by (cases "nat max_tokens") auto
  with assms(1) show ?thesis by (simp add: sample_def)
qed

text \<open>
  Claim C1 says that a prefix without tokens gives an empty completion for every
  \<open>max_tokens \<ge> 0\<close>. With one round or more, the first round reads \<^verbatim>\<open>completion[-1]\<close> of the
  empty list: on the empty prefix and \<open>max_tokens = 1\<close>, \<open>sample\<close> raises \<^verbatim>\<open>IndexError\<close>, for
  every model and seed.
\<close>

theorem sample_empty_prefix_raises:
  "fst (sample seed_rng '''' 1 seed s) = Inl IndexError"
  by (simp add: sample_def strip_def lower_def)

text \<open>
  Claim C7. When the prefix has a token and its last token has no entry in
  \<open>cumulative_probs\<close>, \<open>sample\<close> returns the empty completion string and the empty token list,
  and raises nothing.
\<close>

theorem sample_unknown_context:
  assumes "tokenize (lower (strip prefix)) \<noteq> []"
    and "map_of (cumulative_probs (self s)) (last (tokenize (lower (strip prefix)))) = None"
  shows "fst (sample seed_rng prefix max_tokens seed s) = Inr \<lparr>completion = '''', tokens = []\<rparr>"
proof (cases "nat max_tokens")
  case 0
  then show ?thesis by (simp add: sample_def)
next
  case (Suc k)
  with assms show ?thesis by (simp add: sample_def)
qed

theorem sample_unknown_context_witness:
  "tokenize (lower (strip '' Open Journal '')) \<noteq> []
   \<and> map_of
        (cumulative_probs
          (self \<lparr>self = \<lparr>bigram_counts = [(TupleKey ''open'' ''app'', 1)],
                          word_counts = [(''open'', 1), (''app'', 1)],
                          cumulative_probs = [(''open'', [(''app'', Finite 1)])]\<rparr>,
                 random_state = (\<lambda>i. Finite 0)\<rparr>))
        (last (tokenize (lower (strip '' Open Journal '')))) = None
   \<and> fst (sample (\<lambda>n i. Finite 0) '' Open Journal '' 3 None
          \<lparr>self = \<lparr>bigram_counts = [(TupleKey ''open'' ''app'', 1)],
                    word_counts = [(''open'', 1), (''app'', 1)],
                    cumulative_probs = [(''open'', [(''app'', Finite 1)])]\<rparr>,
           random_state = (\<lambda>i. Finite 0)\<rparr>)
       = Inr \<lparr>completion = '''', tokens = []\<rparr>"
  using sample_unknown_context
    [of "'' Open Journal ''"
        "\<lparr>self = \<lparr>bigram_counts = [(TupleKey ''open'' ''app'', 1)],
                    word_counts = [(''open'', 1), (''app'', 1)],
                    cumulative_probs = [(''open'', [(''app'', Finite 1)])]\<rparr>,
          random_state = (\<lambda>i. Finite 0)\<rparr>"
        "\<lambda>n i. Finite 0" 3 None]
  by (simp add: tokenize_prefix_example)

subsection \<open>Rounding\<close>

text \<open>The exponent found by \<open>ilog2\<close> is the binary exponent: \<open>2 powi ilog2 x \<le> x < 2 powi (ilog2 x + 1)\<close>.\<close>

lemma ilog2_lower:
  assumes "0 < x"
  shows "2 powi (ilog2 x) \<le> x"
proof (cases "1 \<le> x")
  case True
  let ?n = "nat \<lfloor>x\<rfloor>"
  from True have n: "0 < ?n" by simp
  have "(2::nat) ^ (floorlog 2 ?n - 1) \<le> ?n"
    using floorlog_bounds [OF n, of 2] by simp
  then have "real (2 ^ (floorlog 2 ?n - 1)) \<le> real ?n"
    by (rule iffD2 [OF of_nat_le_iff])
  also have "real ?n \<le> x" using True by simp
  finally have le: "2 ^ (floorlog 2 ?n - 1) \<le> x" by simp
  have "floorlog 2 ?n \<noteq> 0"
    using n by (simp add: floorlog_eq_zero_iff)
  then have "int (floorlog 2 ?n) - 1 = int (floorlog 2 ?n - 1)" by linarith
  then have "ilog2 x = int (floorlog 2 ?n - 1)"
    using True by (simp only: ilog2_def if_True)
  then have "2 powi (ilog2 x) = (2::real) ^ (floorlog 2 ?n - 1)"
    by (simp only: power_int_of_nat)
  with le show ?thesis by simp
next
  case False
  let ?m = "nat (\<lceil>1 / x\<rceil> - 1)"
  from False assms have "1 < 1 / x" by simp
  then have c: "2 \<le> \<lceil>1 / x\<rceil>" by linarith
  then have m: "0 < ?m" by simp
  have "?m < 2 ^ floorlog 2 ?m"
    using floorlog_bounds [OF m, of 2] by simp
  then have "?m + 1 \<le> 2 ^ floorlog 2 ?m" by linarith
  then have le: "real (?m + 1) \<le> real (2 ^ floorlog 2 ?m)"
    by (rule iffD2 [OF of_nat_le_iff])
  have eq: "real (?m + 1) = of_int \<lceil>1 / x\<rceil>"
  proof -
    from c have "0 \<le> \<lceil>1 / x\<rceil> - 1" by linarith
    then have "int ?m = \<lceil>1 / x\<rceil> - 1" by (rule nat_0_le)
    moreover have "real ?m = of_int (int ?m)" by (simp only: of_int_of_nat_eq)
    ultimately have "real ?m = of_int (\<lceil>1 / x\<rceil> - 1)" by (simp only:)
    then show ?thesis by (simp only: of_nat_add of_nat_1 of_int_diff of_int_1)
  qed
  have "1 / x \<le> of_int \<lceil>1 / x\<rceil>" by (rule le_of_int_ceiling)
  also have "\<dots> = real (?m + 1)" by (rule eq [symmetric])
  also note le
  finally have "1 / x \<le> 2 ^ floorlog 2 ?m" by (simp only: of_nat_power of_nat_numeral)
  then have "1 \<le> 2 ^ floorlog 2 ?m * x"
    using assms by (simp only: pos_divide_le_eq)
  then have "1 / 2 ^ floorlog 2 ?m \<le> x"
    by (simp add: pos_divide_le_eq mult.commute)
  moreover have "ilog2 x = - int (floorlog 2 ?m)"
    using False by (simp only: ilog2_def if_False)
  then have "2 powi (ilog2 x) = 1 / (2::real) ^ floorlog 2 ?m"
    by (simp only: power_int_minus power_int_of_nat inverse_eq_divide)
  ultimately show ?thesis by simp
qed

lemma ilog2_upper:
  assumes "0 < x"
  shows "x < 2 powi (ilog2 x + 1)"
proof (cases "1 \<le> x")
  case True
  let ?n = "nat \<lfloor>x\<rfloor>"
  from True have n: "0 < ?n" by simp
  have "?n < 2 ^ floorlog 2 ?n"
    using floorlog_bounds [OF n, of 2] by simp
  then have "?n + 1 \<le> 2 ^ floorlog 2 ?n" by linarith
  then have le: "real (?n + 1) \<le> real (2 ^ floorlog 2 ?n)"
    by (rule iffD2 [OF of_nat_le_iff])
  have eq: "real (?n + 1) = of_int \<lfloor>x\<rfloor> + 1"
  proof -
    from True have "0 \<le> \<lfloor>x\<rfloor>" by simp
    then have "int ?n = \<lfloor>x\<rfloor>" by (rule nat_0_le)
    moreover have "real ?n = of_int (int ?n)" by (simp only: of_int_of_nat_eq)
    ultimately have "real ?n = of_int \<lfloor>x\<rfloor>" by (simp only:)
    then show ?thesis by (simp only: of_nat_add of_nat_1)
  qed
  have "x < of_int \<lfloor>x\<rfloor> + 1" by linarith
  also have "\<dots> = real (?n + 1)" by (rule eq [symmetric])
  also note le
  finally have "x < 2 ^ floorlog 2 ?n" by (simp only: of_nat_power of_nat_numeral)
  moreover have "ilog2 x + 1 = int (floorlog 2 ?n)"
    using True by (simp add: ilog2_def)
  then have "2 powi (ilog2 x + 1) = (2::real) ^ floorlog 2 ?n"
    by (simp only: power_int_of_nat)
  ultimately show ?thesis by simp
next
  case False
  let ?m = "nat (\<lceil>1 / x\<rceil> - 1)"
  let ?k = "floorlog 2 ?m"
  from False assms have "1 < 1 / x" by simp
  then have c: "2 \<le> \<lceil>1 / x\<rceil>" by linarith
  then have m: "0 < ?m" by simp
  have "(2::nat) ^ (?k - 1) \<le> ?m"
    using floorlog_bounds [OF m, of 2] by simp
  then have le: "real (2 ^ (?k - 1)) \<le> real ?m"
    by (rule iffD2 [OF of_nat_le_iff])
  have eq: "real ?m = of_int \<lceil>1 / x\<rceil> - 1"
  proof -
    from c have "0 \<le> \<lceil>1 / x\<rceil> - 1" by linarith
    then have "int ?m = \<lceil>1 / x\<rceil> - 1" by (rule nat_0_le)
    moreover have "real ?m = of_int (int ?m)" by (simp only: of_int_of_nat_eq)
    ultimately have "real ?m = of_int (\<lceil>1 / x\<rceil> - 1)" by (simp only:)
    then show ?thesis by (simp only: of_int_diff of_int_1)
  qed
  have "of_int \<lceil>1 / x\<rceil> - 1 < 1 / x" by linarith
  with eq le have "real (2 ^ (?k - 1)) < 1 / x" by linarith
  then have "2 ^ (?k - 1) < 1 / x" by (simp only: of_nat_power of_nat_numeral)
  then have "2 ^ (?k - 1) * x < 1"
    using assms by (simp only: pos_less_divide_eq)
  then have lt: "x < 1 / 2 ^ (?k - 1)"
    by (simp add: pos_less_divide_eq mult.commute)
  have "?k \<noteq> 0"
    using m by (simp add: floorlog_eq_zero_iff)
  then have "- int ?k + 1 = - int (?k - 1)" by linarith
  moreover have "ilog2 x = - int ?k"
    using False by (simp only: ilog2_def if_False)
  ultimately have "ilog2 x + 1 = - int (?k - 1)" by (simp only:)
  then have "2 powi (ilog2 x + 1) = 1 / (2::real) ^ (?k - 1)"
    by (simp only: power_int_minus power_int_of_nat inverse_eq_divide)
  with lt show ?thesis by simp
qed


lemma round_half_even_of_int: "round_half_even (of_int k) = k"
  by (simp add: round_half_even_def)



lemma rnd53_exact:
  assumes k: "\<bar>k\<bar> < 2 ^ 53" and f: "- 1074 \<le> f"
  shows "rnd53 (of_int k * 2 powi f) = of_int k * 2 powi f"
proof (cases "k = 0")
  case True
  then show ?thesis by (simp add: rnd53_def)
next
  case False
  define x :: real where "x = of_int k * 2 powi f"
  define e where "e = max (ilog2 \<bar>x\<bar> - 52) (- 1074)"
  from False have x0: "x \<noteq> 0" by (simp add: x_def)
  have "\<bar>x\<bar> = of_int \<bar>k\<bar> * 2 powi f" by (simp add: x_def abs_mult)
  also have "\<dots> < 2 ^ 53 * 2 powi f"
  proof -
    from k have "real_of_int \<bar>k\<bar> < real_of_int (2 ^ 53)" by (simp only: of_int_less_iff)
    then have "real_of_int \<bar>k\<bar> < 2 ^ 53" by simp
    then show ?thesis by (intro mult_strict_right_mono) simp_all
  qed
  also have "\<dots> = 2 powi (f + 53)"
    by (simp add: power_int_add)
  finally have up: "\<bar>x\<bar> < 2 powi (f + 53)" .
  have "ilog2 \<bar>x\<bar> < f + 53"
  proof (rule ccontr)
    assume "\<not> ilog2 \<bar>x\<bar> < f + 53"
    then have "(2::real) powi (f + 53) \<le> 2 powi (ilog2 \<bar>x\<bar>)"
      by (intro power_int_increasing) simp_all
    also have "\<dots> \<le> \<bar>x\<bar>" using x0 by (intro ilog2_lower) simp
    finally show False using up by simp
  qed
  with f have ef: "e \<le> f" by (simp add: e_def)
  have "x / 2 powi e = of_int k * 2 powi (f - e)"
    by (simp add: x_def power_int_diff)
  also have "\<dots> = of_int (k * 2 ^ nat (f - e))"
    using ef by (simp add: power_int_def)
  finally have "round_half_even (x / 2 powi e) = k * 2 ^ nat (f - e)"
    by (simp only: round_half_even_of_int)
  then have "rnd53 x = of_int (k * 2 ^ nat (f - e)) * 2 powi e"
    using x0 by (simp add: rnd53_def e_def Let_def)
  also have "\<dots> = of_int k * (2 powi (f - e) * 2 powi e)"
    using ef by (simp add: power_int_def)
  also have "2 powi (f - e) * 2 powi e = (2::real) powi f"
    by (simp flip: power_int_add)
  finally show ?thesis by (simp add: x_def)
qed

lemma rnd53_three_quarters: "rnd53 (3 / 4) = 3 / 4"
  using rnd53_exact [of 3 "- 2"] by (simp add: power_int_minus_divide)

lemma rnd53_quarter: "rnd53 (1 / 4) = 1 / 4"
  using rnd53_exact [of 1 "- 2"] by (simp add: power_int_minus_divide)

lemma rnd53_one: "rnd53 1 = 1"
  using rnd53_exact [of 1 0] by simp

subsection \<open>Sampled tokens and the counts\<close>

text \<open>Each entry of a distribution comes from a successful lookup of its bigram.\<close>

lemma accumulate_keys:
  "accumulate bc word tc cum ws = Inr d \<Longrightarrow> (w, c) \<in> set d \<Longrightarrow>
   TupleKey word w \<in> fst ` set bc"
proof (induction ws arbitrary: cum d)
  case Nil
  then show ?case by simp
next
  case (Cons v ws)
  from Cons.prems(1) obtain n q rest where
    n: "map_of bc (TupleKey word v) = Some n" and
    rest: "accumulate bc word tc (fadd cum q) ws = Inr rest" and
    d: "d = (v, fadd cum q) # rest"
    by (auto simp: getitem_def Let_def split: option.splits sum.splits)
  from Cons.prems(2) d consider "w = v" | "(w, c) \<in> set rest" by auto
  then show ?case
  proof cases
    case 1
    with n show ?thesis by (force dest: map_of_SomeD)
  next
    case 2
    with Cons.IH rest show ?thesis by blast
  qed
qed

lemma distributions_loop_sound:
  "distributions_loop iter_set bc fw cp = Inr cp' \<Longrightarrow> sound bc cp \<Longrightarrow> sound bc cp'"
proof (induction fw arbitrary: cp)
  case Nil
  then show ?case by simp
next
  case (Cons a fw)
  obtain word ws where a: "a = (word, ws)" by (cases a)
  from Cons.prems(1) a obtain d where
    d: "distribution iter_set bc word ws = Inr d" and
    rest: "distributions_loop iter_set bc fw (AList.update word d cp) = Inr cp'"
    by (auto split: sum.splits)
  from d have "\<And>w c. (w, c) \<in> set d \<Longrightarrow> TupleKey word w \<in> fst ` set bc"
    by (auto simp: distribution_def split: sum.splits dest: accumulate_keys)
  with Cons.prems(2) have "sound bc (AList.update word d cp)"
    by (auto simp: sound_def update_conv')
  with Cons.IH rest show ?case by blast
qed

lemma calculate_sound:
  assumes "calculate_cumulative_probabilities iter_set m = Inr m'"
    and "sound (bigram_counts m) (cumulative_probs m)"
  shows "sound (bigram_counts m') (cumulative_probs m')"
  using assms
  by (auto simp: calculate_cumulative_probabilities_def split: sum.splits
      dest: distributions_loop_sound)

lemma keys_increment: "fst ` set (increment k d) = insert k (fst ` set d)"
  by (simp add: increment_def dom_update)

lemma keys_fold_increment: "fst ` set (fold increment ks d) = set ks \<union> fst ` set d"
  by (induction ks arbitrary: d) (simp_all add: keys_increment)

lemma train_line_sound:
  "sound (bigram_counts m) (cumulative_probs m) \<Longrightarrow>
   sound (bigram_counts (train_line line m)) (cumulative_probs (train_line line m))"
  by (auto simp: train_line_def Let_def sound_def keys_fold_increment)

lemma fold_train_line_sound:
  "sound (bigram_counts m) (cumulative_probs m) \<Longrightarrow>
   sound (bigram_counts (fold train_line corpus m)) (cumulative_probs (fold train_line corpus m))"
  by (induction corpus arbitrary: m) (simp_all add: train_line_sound)

lemma init_sound: "sound (bigram_counts init) (cumulative_probs init)"
  by (simp add: sound_def init_def)

lemma train_sound:
  assumes "sound (bigram_counts m) (cumulative_probs m)" and "train iter_set m corpus = Inr m'"
  shows "sound (bigram_counts m') (cumulative_probs m')"
  using assms unfolding train_def by (blast intro: calculate_sound fold_train_line_sound)

text \<open>\<open>load_model\<close> on an object without distributions, as the \<^verbatim>\<open>sample\<close> command calls it.\<close>

lemma load_model_sound:
  assumes "cumulative_probs m = []" and "load_model iter_set m f = Inr m'"
  shows "sound (bigram_counts m') (cumulative_probs m')"
proof (cases f)
  case (Json d)
  let ?m = "m\<lparr>bigram_counts := map (\<lambda>(k, v). (StrKey k, v)) (dict_of (json_bigram_counts d)),
    word_counts := dict_of (json_word_counts d)\<rparr>"
  from assms(2) Json have "calculate_cumulative_probabilities iter_set ?m = Inr m'"
    by simp
  moreover have "sound (bigram_counts ?m) (cumulative_probs ?m)"
    using assms(1) by (simp add: sound_def)
  ultimately show ?thesis by (rule calculate_sound)
qed (use assms(2) in simp_all)

lemma pick_member: "pick rand d = Some w \<Longrightarrow> \<exists>c. (w, c) \<in> set d"
  by (induction d) (auto split: if_splits)

lemma sample_loop_extends:
  "sample_loop cp n compl g = (Inr out, g') \<Longrightarrow>
   \<exists>ext. out = compl @ ext \<and> (\<forall>t \<in> set ext. \<exists>p d c. map_of cp p = Some d \<and> (t, c) \<in> set d)"
proof (induction n arbitrary: compl g)
  case 0
  then show ?case by simp
next
  case (Suc n)
  show ?case
  proof (cases "compl = []")
    case True
    with Suc.prems show ?thesis by simp
  next
    case False
    show ?thesis
    proof (cases "map_of cp (last compl)")
      case None
      with Suc.prems False show ?thesis by simp
    next
      case (Some d)
      show ?thesis
      proof (cases "pick (g 0) d")
        case None
        with Suc.prems False Some show ?thesis by (simp add: random_random_def)
      next
        case (Some w)
        with Suc.prems False \<open>map_of cp (last compl) = Some d\<close>
        have "sample_loop cp n (compl @ [w]) (\<lambda>n. g (Suc n)) = (Inr out, g')"
          by (simp add: random_random_def)
        from Suc.IH [OF this] obtain ext where
          ext: "out = (compl @ [w]) @ ext"
            "\<forall>t \<in> set ext. \<exists>p d c. map_of cp p = Some d \<and> (t, c) \<in> set d"
          by blast
        from Some obtain c where "(w, c) \<in> set d" by (blast dest: pick_member)
        with \<open>map_of cp (last compl) = Some d\<close> ext
        have "\<forall>t \<in> set (w # ext). \<exists>p d c. map_of cp p = Some d \<and> (t, c) \<in> set d"
          by auto
        with ext(1) show ?thesis by (intro exI [of _ "w # ext"]) simp
      qed
    qed
  qed
qed

text \<open>
  On an object whose distributions agree with its counts, every token of the completion that
  \<open>sample\<close> returns is the second element of a key of \<open>bigram_counts\<close>. A new object is such
  an object, and it stays one under \<open>train\<close>; \<open>load_model\<close> gives one when the object had no
  distributions before.
\<close>

lemma sample_tokens_sound:
  assumes "sound (bigram_counts (self s)) (cumulative_probs (self s))"
    and "fst (sample seed_rng prefix max_tokens seed s) = Inr r"
    and "t \<in> set (tokens r)"
  shows "\<exists>p c. (TupleKey p t, c) \<in> set (bigram_counts (self s))"
proof -
  let ?toks = "tokenize (lower (strip prefix))"
  let ?g = "case seed of None \<Rightarrow> random_state s | Some n \<Rightarrow> seed_rng n"
  obtain res g' where loop:
    "sample_loop (cumulative_probs (self s)) (nat max_tokens) ?toks ?g = (res, g')"
    by (cases "sample_loop (cumulative_probs (self s)) (nat max_tokens) ?toks ?g")
  with assms(2) obtain out where out: "res = Inr out" and r: "tokens r = drop (length ?toks) out"
    by (auto simp: sample_def Let_def split: sum.splits)
  from sample_loop_extends [OF loop [unfolded out]] obtain ext where
    ext: "out = ?toks @ ext"
      "\<forall>t \<in> set ext. \<exists>p d c. map_of (cumulative_probs (self s)) p = Some d \<and> (t, c) \<in> set d"
    by blast
  from r ext(1) have "tokens r = ext" by simp
  with assms(3) ext(2) obtain p d c where
    "map_of (cumulative_probs (self s)) p = Some d" "(t, c) \<in> set d"
    by blast
  with assms(1) have "TupleKey p t \<in> fst ` set (bigram_counts (self s))"
    unfolding sound_def by blast
  then show ?thesis by force
qed

subsection \<open>Evaluation of examples\<close>

lemma truediv_exact:
  "b \<noteq> 0 \<Longrightarrow> rnd53 (of_int a / of_int b) = r \<Longrightarrow> \<bar>r\<bar> < 2 ^ 1024 \<Longrightarrow>
   truediv a b = Inr (Finite r)"
  by (simp add: truediv_def Let_def)

lemma to_float_exact: "rnd53 x = r \<Longrightarrow> \<bar>r\<bar> < 2 ^ 1024 \<Longrightarrow> to_float x = Finite r"
  by (auto simp: to_float_def Let_def)

lemma truediv_1_1: "truediv 1 1 = Inr (Finite 1)"
  by (rule truediv_exact) (simp_all add: rnd53_one)

lemma truediv_3_4: "truediv 3 4 = Inr (Finite (3 / 4))"
  by (rule truediv_exact) (simp_all add: rnd53_three_quarters)

lemma truediv_1_4: "truediv 1 4 = Inr (Finite (1 / 4))"
  by (rule truediv_exact) (simp_all add: rnd53_quarter)

lemma to_float_1: "to_float 1 = Finite 1"
  by (simp add: to_float_exact [OF rnd53_one])

lemma to_float_three_quarters: "to_float (3 / 4) = Finite (3 / 4)"
  by (simp add: to_float_exact [OF rnd53_three_quarters])

lemma to_float_quarter: "to_float (1 / 4) = Finite (1 / 4)"
  by (simp add: to_float_exact [OF rnd53_quarter])

lemmas float_examples =
  truediv_1_1 truediv_3_4 truediv_1_4 to_float_1 to_float_three_quarters to_float_quarter

lemma counts_example:
  "fold train_line [''a b''] init =
     \<lparr>bigram_counts = [(TupleKey ''a'' ''b'', 1)],
      word_counts = [(''a'', 1), (''b'', 1)],
      cumulative_probs = []\<rparr>"
  by code_simp

lemma train_example:
  "train (\<lambda>xs. xs) init [''a b''] =
     Inr \<lparr>bigram_counts = [(TupleKey ''a'' ''b'', 1)],
          word_counts = [(''a'', 1), (''b'', 1)],
          cumulative_probs = [(''a'', [(''b'', Finite 1)])]\<rparr>"
  unfolding train_def counts_example
  by (simp add: calculate_cumulative_probabilities_def get_following_words_def set_add_def
      distribution_def getitem_def float_examples)

lemma tokenize_a: "tokenize (lower (strip ''a'')) = [''a'']"
  by code_simp

subsection \<open>Persistence\<close>

text \<open>A dictionary with a key that is a pair cannot be written.\<close>

lemma json_object_tuple_key:
  "(TupleKey a b, c) \<in> set d \<Longrightarrow> json_object d = Inl TypeError"
proof (induction d)
  case Nil
  then show ?case by simp
next
  case (Cons e d)
  obtain k v where e: "e = (k, v)" by (cases e)
  show ?case
  proof (cases k)
    case (TupleKey x y)
    with e show ?thesis by simp
  next
    case (StrKey x)
    with Cons e show ?thesis by auto
  qed
qed

lemma save_model_tuple_key:
  "(TupleKey a b, c) \<in> set (bigram_counts m) \<Longrightarrow> save_model m = Inl TypeError"
  by (simp add: save_model_def json_object_tuple_key)

text \<open>A model without bigrams is written and read back as it was.\<close>

lemma dict_of_distinct: "distinct (map fst d) \<Longrightarrow> dict_of d = d"
proof -
  have "distinct (map fst (acc @ d)) \<Longrightarrow> fold (\<lambda>(k, v). AList.update k v) d acc = acc @ d" for acc
  proof (induction d arbitrary: acc)
    case Nil
    then show ?case by simp
  next
    case (Cons e d)
    obtain k v where e: "e = (k, v)" by (cases e)
    from Cons.prems e have "k \<notin> fst ` set acc" by auto
    then have "AList.update k v acc = acc @ [(k, v)]"
      by (induction acc) auto
    with Cons.IH [of "acc @ [e]"] Cons.prems e show ?case by simp
  qed
  from this [of "[]"] show "distinct (map fst d) \<Longrightarrow> dict_of d = d"
    by (simp add: dict_of_def)
qed

lemma save_load_without_bigrams:
  assumes "bigram_counts m = []" and "distinct (map fst (word_counts m))"
    and "cumulative_probs m = []"
  shows "\<exists>d. save_model m = Inr d \<and> load_model iter_set init (Json d) = Inr m"
  using assms
  by (simp add: save_model_def init_def dict_of_distinct calculate_cumulative_probabilities_def
      get_following_words_def dict_of_def [of "[]"])

text \<open>
  Claim C3 says that every trained model can be saved and loaded back. The model trained on the
  corpus with the single line \<^verbatim>\<open>a b\<close> has one bigram; its key is a pair, and \<open>save_model\<close> raises
  \<^verbatim>\<open>TypeError\<close>.
\<close>

theorem save_trained_model_raises:
  "train (\<lambda>xs. xs) init [''a b''] =
     Inr \<lparr>bigram_counts = [(TupleKey ''a'' ''b'', 1)],
          word_counts = [(''a'', 1), (''b'', 1)],
          cumulative_probs = [(''a'', [(''b'', Finite 1)])]\<rparr>
   \<and> save_model
       \<lparr>bigram_counts = [(TupleKey ''a'' ''b'', 1)],
        word_counts = [(''a'', 1), (''b'', 1)],
        cumulative_probs = [(''a'', [(''b'', Finite 1)])]\<rparr> = Inl TypeError"
  by (simp add: train_example save_model_def)

subsection \<open>The order of the successors\<close>

lemma set_first_occurrences: "set (first_occurrences xs) = set xs"
  by (induction xs) auto

lemma distinct_first_occurrences: "distinct (first_occurrences xs)"
  by (induction xs) (auto simp: set_first_occurrences)

lemma first_occurrences_snoc:
  "first_occurrences (xs @ [x]) =
     (if x \<in> set xs then first_occurrences xs else first_occurrences xs @ [x])"
  by (induction xs) (auto simp: set_first_occurrences)

lemma key_pairs_append: "key_pairs (xs @ ys) = key_pairs xs @ key_pairs ys"
  by (induction xs rule: key_pairs.induct) simp_all

lemma following_loop_append:
  "following_loop (xs @ ys) fw =
     (case following_loop xs fw of Inl e \<Rightarrow> Inl e | Inr fw' \<Rightarrow> following_loop ys fw')"
  by (induction xs fw rule: following_loop.induct) (simp_all split: sum.splits prod.splits)

lemma first_observed_unseen: "p \<notin> set (predecessors bc) \<Longrightarrow> first_observed bc p = []"
proof -
  assume "p \<notin> set (predecessors bc)"
  then have "filter (\<lambda>(a, b). a = p) (key_pairs bc) = []"
    by (force simp: predecessors_def set_first_occurrences filter_empty_conv)
  then show ?thesis by (simp add: first_observed_def)
qed

lemma following_loop_spec:
  assumes "tuple_keys bc"
  shows "\<exists>fw. following_loop bc [] = Inr fw \<and> map fst fw = predecessors bc
    \<and> (\<forall>p. map_of fw p =
          (if p \<in> set (predecessors bc) then Some (first_observed bc p) else None))"
  using assms
proof (induction bc rule: rev_induct)
  case Nil
  show ?case by (simp add: predecessors_def)
next
  case (snoc e bc)
  from snoc.prems have tk: "tuple_keys bc"
    by (simp add: tuple_keys_def)
  from snoc.prems obtain a b c where e: "e = (TupleKey a b, c)"
    by (cases e) (auto simp: tuple_keys_def)
  from snoc.IH [OF tk] obtain fw where
    fw: "following_loop bc [] = Inr fw" and
    keys: "map fst fw = predecessors bc" and
    look: "\<And>p. map_of fw p =
      (if p \<in> set (predecessors bc) then Some (first_observed bc p) else None)"
    by blast
  let ?old = "case map_of fw a of None \<Rightarrow> [] | Some s \<Rightarrow> s"
  let ?fw' = "AList.update a (set_add b ?old) fw"
  have old: "?old = first_observed bc a"
    by (simp add: look first_observed_unseen)
  have run: "following_loop (bc @ [e]) [] = Inr ?fw'"
    by (simp add: following_loop_append fw e)
  have preds: "predecessors (bc @ [e]) =
      (if a \<in> set (predecessors bc) then predecessors bc else predecessors bc @ [a])"
    by (simp add: predecessors_def key_pairs_append e first_occurrences_snoc
        set_first_occurrences)
  have k: "map fst ?fw' = predecessors (bc @ [e])"
    by (simp add: update_keys keys preds)
  have obs_a: "first_observed (bc @ [e]) a = set_add b (first_observed bc a)"
    by (simp add: first_observed_def key_pairs_append e first_occurrences_snoc
        set_first_occurrences set_add_def)
  have obs_p: "first_observed (bc @ [e]) p = first_observed bc p" if "p \<noteq> a" for p
    using that by (simp add: first_observed_def key_pairs_append e)
  have "map_of ?fw' p =
      (if p \<in> set (predecessors (bc @ [e])) then Some (first_observed (bc @ [e]) p) else None)"
    for p
  proof (cases "p = a")
    case True
    then show ?thesis by (simp add: update_conv' old obs_a preds)
  next
    case False
    then show ?thesis by (simp add: update_conv' look obs_p preds)
  qed
  with run k show ?case by blast
qed

lemma accumulate_fst: "accumulate bc word tc cum ws = Inr d \<Longrightarrow> map fst d = ws"
  by (induction ws arbitrary: cum d) (auto simp: Let_def split: sum.splits)

lemma distribution_fst: "distribution iter_set bc p ws = Inr d \<Longrightarrow> map fst d = iter_set ws"
  by (auto simp: distribution_def split: sum.splits dest: accumulate_fst)

lemma distributions_loop_lookup:
  assumes "distributions_loop iter_set bc fw cp = Inr cp'" and "distinct (map fst fw)"
  shows "(\<forall>p. p \<notin> fst ` set fw \<longrightarrow> map_of cp' p = map_of cp p)
    \<and> (\<forall>p ws. map_of fw p = Some ws \<longrightarrow>
          (\<exists>d. distribution iter_set bc p ws = Inr d \<and> map_of cp' p = Some d))"
  using assms
proof (induction fw arbitrary: cp)
  case Nil
  then show ?case by simp
next
  case (Cons a fw)
  obtain word ws where a: "a = (word, ws)" by (cases a)
  from Cons.prems(1) a obtain d where
    d: "distribution iter_set bc word ws = Inr d" and
    rest: "distributions_loop iter_set bc fw (AList.update word d cp) = Inr cp'"
    by (auto split: sum.splits)
  from Cons.prems(2) a have dist: "distinct (map fst fw)" and new: "word \<notin> fst ` set fw"
    by auto
  from Cons.IH [OF rest dist] have
    other: "\<And>p. p \<notin> fst ` set fw \<Longrightarrow> map_of cp' p = map_of (AList.update word d cp) p" and
    found: "\<And>p ws. map_of fw p = Some ws \<Longrightarrow>
      \<exists>d. distribution iter_set bc p ws = Inr d \<and> map_of cp' p = Some d"
    by blast+
  have "map_of cp' p = map_of cp p" if "p \<notin> fst ` set (a # fw)" for p
    using that other [of p] a by (simp add: update_conv')
  moreover have "\<exists>d. distribution iter_set bc p vs = Inr d \<and> map_of cp' p = Some d"
    if "map_of (a # fw) p = Some vs" for p vs
  proof (cases "p = word")
    case True
    with that a have "vs = ws" by simp
    with True d other [OF new] show ?thesis by (simp add: update_conv')
  next
    case False
    with that a found show ?thesis by simp
  qed
  ultimately show ?case by blast
qed

lemma distributions_loop_keys:
  assumes "distributions_loop iter_set bc fw cp = Inr cp'" and "distinct (map fst fw)"
    and "fst ` set fw \<inter> fst ` set cp = {}"
  shows "map fst cp' = map fst cp @ map fst fw"
  using assms
proof (induction fw arbitrary: cp)
  case Nil
  then show ?case by simp
next
  case (Cons a fw)
  obtain word ws where a: "a = (word, ws)" by (cases a)
  from Cons.prems(1) a obtain d where
    rest: "distributions_loop iter_set bc fw (AList.update word d cp) = Inr cp'"
    by (auto split: sum.splits)
  from Cons.prems(3) a have "word \<notin> set (map fst cp)" by auto
  then have k: "map fst (AList.update word d cp) = map fst cp @ [word]"
    by (simp add: update_keys)
  from Cons.prems a have "distinct (map fst fw)"
    and "fst ` set fw \<inter> fst ` set (AList.update word d cp) = {}"
    by (auto simp: dom_update)
  from Cons.IH [OF rest this] k a show ?case by simp
qed

text \<open>An association list is determined by its keys and its lookups.\<close>

lemma alist_by_keys:
  assumes "distinct (map fst xs)" and "\<And>k. k \<in> fst ` set xs \<Longrightarrow> map_of xs k = Some (f k)"
  shows "xs = map (\<lambda>k. (k, f k)) (map fst xs)"
  using assms
proof (induction xs)
  case Nil
  then show ?case by simp
next
  case (Cons x xs)
  obtain k v where x: "x = (k, v)" by (cases x)
  from Cons.prems(2) [of k] x have v: "v = f k" by simp
  have "map_of xs j = Some (f j)" if j: "j \<in> fst ` set xs" for j
  proof -
    from j Cons.prems(1) x have "j \<noteq> k" by auto
    with Cons.prems(2) [of j] x j show ?thesis by simp
  qed
  with Cons.IH Cons.prems(1) have "xs = map (\<lambda>k. (k, f k)) (map fst xs)" by simp
  with x v show ?case by simp
qed

text \<open>
  Claim C2, as the code has it. For bigram counts whose keys are pairs, on a model that has no
  distributions yet, the builder lists the predecessors in the order of first observation and,
  for each predecessor, its observed successors, each once, in the order in which Python
  iterates over the set that holds them: \<open>iter_set\<close> applied to the successors in the order of
  first observation. That is the order of first observation when the iteration keeps the order
  of insertion, which a Python set does not promise.
\<close>

theorem distributions_in_set_order:
  assumes "calculate_cumulative_probabilities iter_set m = Inr m'"
    and "cumulative_probs m = []"
    and "tuple_keys (bigram_counts m)"
  shows "map (\<lambda>(p, d). (p, map fst d)) (cumulative_probs m')
    = map (\<lambda>p. (p, iter_set (first_observed (bigram_counts m) p)))
        (predecessors (bigram_counts m))"
proof -
  let ?bc = "bigram_counts m"
  from following_loop_spec [OF assms(3)] obtain fw where
    fw: "following_loop ?bc [] = Inr fw" and
    keys: "map fst fw = predecessors ?bc" and
    look: "\<And>p. map_of fw p =
      (if p \<in> set (predecessors ?bc) then Some (first_observed ?bc p) else None)"
    by blast
  from assms(1,2) fw have loop: "distributions_loop iter_set ?bc fw [] = Inr (cumulative_probs m')"
    by (auto simp: calculate_cumulative_probabilities_def get_following_words_def
        split: sum.splits)
  have dist: "distinct (map fst fw)"
    by (simp add: keys predecessors_def distinct_first_occurrences)
  from distributions_loop_keys [OF loop dist] keys
  have k: "map fst (cumulative_probs m') = predecessors ?bc" by simp
  let ?xs = "map (\<lambda>(p, d). (p, map fst d)) (cumulative_probs m')"
  have k': "map fst ?xs = predecessors ?bc"
    using k by (simp add: case_prod_unfold comp_def)
  have "map_of ?xs p = Some (iter_set (first_observed ?bc p))" if "p \<in> fst ` set ?xs" for p
  proof -
    from that have "p \<in> set (map fst ?xs)" by (simp only: set_map)
    with k' have "map_of fw p = Some (first_observed ?bc p)" by (simp add: look)
    with distributions_loop_lookup [OF loop dist] obtain d where
      "distribution iter_set ?bc p (first_observed ?bc p) = Inr d"
      "map_of (cumulative_probs m') p = Some d"
      by blast
    then show ?thesis
      by (simp add: map_of_map distribution_fst)
  qed
  moreover have "distinct (map fst ?xs)"
    by (simp only: k') (simp add: predecessors_def distinct_first_occurrences)
  ultimately have "?xs = map (\<lambda>p. (p, iter_set (first_observed ?bc p))) (map fst ?xs)"
    by (rule alist_by_keys [rotated])
  with k' show ?thesis by simp
qed

lemma rnd53_half: "rnd53 (1 / 2) = 1 / 2"
  using rnd53_exact [of 1 "- 1"] by (simp add: power_int_minus_divide)

lemma truediv_1_2: "truediv 1 2 = Inr (Finite (1 / 2))"
  by (rule truediv_exact) (simp_all add: rnd53_half)

lemma to_float_half: "to_float (1 / 2) = Finite (1 / 2)"
  by (simp add: to_float_exact [OF rnd53_half])

lemma counts_open: 
  "fold train_line [''open app'', ''open door''] init =
     \<lparr>bigram_counts = [(TupleKey ''open'' ''app'', 1), (TupleKey ''open'' ''door'', 1)],
      word_counts = [(''open'', 2), (''app'', 1), (''door'', 1)],
      cumulative_probs = []\<rparr>"
  by code_simp

lemma calculate_open:
  "calculate_cumulative_probabilities rev
     \<lparr>bigram_counts = [(TupleKey ''open'' ''app'', 1), (TupleKey ''open'' ''door'', 1)],
      word_counts = [(''open'', 2), (''app'', 1), (''door'', 1)],
      cumulative_probs = []\<rparr> =
   Inr \<lparr>bigram_counts = [(TupleKey ''open'' ''app'', 1), (TupleKey ''open'' ''door'', 1)],
        word_counts = [(''open'', 2), (''app'', 1), (''door'', 1)],
        cumulative_probs = [(''open'', [(''door'', Finite (1 / 2)), (''app'', Finite 1)])]\<rparr>"
  by (simp add: calculate_cumulative_probabilities_def get_following_words_def set_add_def
      distribution_def getitem_def truediv_1_2 to_float_half to_float_1)

lemma first_observed_open:
  "first_observed [(TupleKey ''open'' ''app'', 1), (TupleKey ''open'' ''door'', 1)] ''open''
   = [''app'', ''door'']"
  by (simp add: first_observed_def)

text \<open>
  Claim C2 says that the successors of each predecessor are listed in the order of first
  observation. \<^verbatim>\<open>get_following_words\<close> collects them in a \<^verbatim>\<open>set\<close>, and the distributions follow
  the order in which Python iterates over that set. When the set that was built by adding
  \<^verbatim>\<open>app\<close> and then \<^verbatim>\<open>door\<close> is iterated as \<^verbatim>\<open>door\<close>, \<^verbatim>\<open>app\<close>, training on the two lines
  \<^verbatim>\<open>open app\<close> and \<^verbatim>\<open>open door\<close> lists \<^verbatim>\<open>door\<close> before \<^verbatim>\<open>app\<close>.
\<close>

theorem successors_not_in_first_observation_order:
  "train rev init [''open app'', ''open door''] =
     Inr \<lparr>bigram_counts = [(TupleKey ''open'' ''app'', 1), (TupleKey ''open'' ''door'', 1)],
          word_counts = [(''open'', 2), (''app'', 1), (''door'', 1)],
          cumulative_probs = [(''open'', [(''door'', Finite (1 / 2)), (''app'', Finite 1)])]\<rparr>
   \<and> first_observed [(TupleKey ''open'' ''app'', 1), (TupleKey ''open'' ''door'', 1)] ''open''
       = [''app'', ''door'']
   \<and> map fst [(''door'', Finite (1 / 2)), (''app'', Finite 1)]
       \<noteq> first_observed [(TupleKey ''open'' ''app'', 1), (TupleKey ''open'' ''door'', 1)] ''open''"
  unfolding train_def counts_open calculate_open first_observed_open by simp

theorem distributions_in_set_order_witness:
  "calculate_cumulative_probabilities rev
     \<lparr>bigram_counts = [(TupleKey ''open'' ''app'', 1), (TupleKey ''open'' ''door'', 1)],
      word_counts = [(''open'', 2), (''app'', 1), (''door'', 1)],
      cumulative_probs = []\<rparr> =
   Inr \<lparr>bigram_counts = [(TupleKey ''open'' ''app'', 1), (TupleKey ''open'' ''door'', 1)],
        word_counts = [(''open'', 2), (''app'', 1), (''door'', 1)],
        cumulative_probs = [(''open'', [(''door'', Finite (1 / 2)), (''app'', Finite 1)])]\<rparr>
   \<and> cumulative_probs
        \<lparr>bigram_counts = [(TupleKey ''open'' ''app'', 1), (TupleKey ''open'' ''door'', 1)],
         word_counts = [(''open'', 2), (''app'', 1), (''door'', 1)],
         cumulative_probs = []\<rparr> = []
   \<and> tuple_keys [(TupleKey ''open'' ''app'', 1), (TupleKey ''open'' ''door'', 1)]
   \<and> map (\<lambda>(p, d). (p, map fst d))
        [(''open'', [(''door'', Finite (1 / 2)), (''app'', Finite 1)])]
     = map (\<lambda>p. (p, rev (first_observed
                            [(TupleKey ''open'' ''app'', 1), (TupleKey ''open'' ''door'', 1)] p)))
         (predecessors [(TupleKey ''open'' ''app'', 1), (TupleKey ''open'' ''door'', 1)])"
proof -
  have t: "tuple_keys [(TupleKey ''open'' ''app'', 1), (TupleKey ''open'' ''door'', 1)]"
    by (simp add: tuple_keys_def)
  from distributions_in_set_order [OF calculate_open] t calculate_open
  show ?thesis by simp
qed

subsection \<open>The cumulative values\<close>













subsection \<open>Loading into a trained object\<close>

lemma counts_hello:
  "fold train_line [''hello''] init =
     \<lparr>bigram_counts = [], word_counts = [(''hello'', 1)], cumulative_probs = []\<rparr>"
  by code_simp

lemma train_hello:
  "train (\<lambda>xs. xs) init [''hello''] =
     Inr \<lparr>bigram_counts = [], word_counts = [(''hello'', 1)], cumulative_probs = []\<rparr>"
  unfolding train_def counts_hello
  by (simp add: calculate_cumulative_probabilities_def get_following_words_def)

text \<open>
  Claim C10 says that no token of a completion is missing from the successors in
  \<open>bigram_counts\<close>. \<open>calculate_cumulative_probabilities\<close> overwrites the distributions of the
  predecessors it finds and never removes another entry of \<open>cumulative_probs\<close>, so \<open>load_model\<close>
  on an object that was trained keeps the old distributions beside the new counts. The model
  trained on the line \<^verbatim>\<open>hello\<close> has no bigram and is saved; an object trained on the line \<^verbatim>\<open>a b\<close>
  then loads that file: its \<open>bigram_counts\<close> are empty, its distribution for \<^verbatim>\<open>a\<close> is still
  there, and \<open>sample\<close> on the prefix \<^verbatim>\<open>a\<close> returns the token \<^verbatim>\<open>b\<close>.
\<close>

theorem sample_after_load_returns_unobserved_token:
  "train (\<lambda>xs. xs) init [''hello''] =
     Inr \<lparr>bigram_counts = [], word_counts = [(''hello'', 1)], cumulative_probs = []\<rparr>
   \<and> save_model \<lparr>bigram_counts = [], word_counts = [(''hello'', 1)], cumulative_probs = []\<rparr> =
       Inr \<lparr>json_bigram_counts = [], json_word_counts = [(''hello'', 1)]\<rparr>
   \<and> train (\<lambda>xs. xs) init [''a b''] =
       Inr \<lparr>bigram_counts = [(TupleKey ''a'' ''b'', 1)],
            word_counts = [(''a'', 1), (''b'', 1)],
            cumulative_probs = [(''a'', [(''b'', Finite 1)])]\<rparr>
   \<and> load_model (\<lambda>xs. xs)
       \<lparr>bigram_counts = [(TupleKey ''a'' ''b'', 1)],
        word_counts = [(''a'', 1), (''b'', 1)],
        cumulative_probs = [(''a'', [(''b'', Finite 1)])]\<rparr>
       (Json \<lparr>json_bigram_counts = [], json_word_counts = [(''hello'', 1)]\<rparr>) =
       Inr \<lparr>bigram_counts = [], word_counts = [(''hello'', 1)],
            cumulative_probs = [(''a'', [(''b'', Finite 1)])]\<rparr>
   \<and> fst (sample (\<lambda>n i. Finite (1 / 2)) ''a'' 3 (Some 42)
          \<lparr>self = \<lparr>bigram_counts = [], word_counts = [(''hello'', 1)],
                    cumulative_probs = [(''a'', [(''b'', Finite 1)])]\<rparr>,
           random_state = g\<rparr>)
       = Inr \<lparr>completion = ''b'', tokens = [''b'']\<rparr>"
  by (simp add: train_hello train_example save_model_def dict_of_def
      calculate_cumulative_probabilities_def get_following_words_def
      sample_def tokenize_a eval_nat_numeral random_random_def)

end
